theory Spec2Isabelle
  imports Main "HOL-Library.Word"
begin

section \<open>The ring buffer of \<open>xitren::containers::circular_buffer\<close>\<close>

text \<open>
  The class template \<open>circular_buffer<T, Size>\<close> keeps three members:
  \<open>std::array<storage_type, Size> data_\<close>, \<open>size_type tail_{0}\<close> and
  \<open>size_type size_{0}\<close> (here \<open>data_m\<close>, \<open>tail_m\<close> and \<open>size_m\<close>: a name
  cannot end in an underscore). \<open>size_type\<close> is \<open>size_t\<close>, modelled as a 64-bit
  word, so \<open>+\<close>, \<open>-\<close> and \<open>*\<close> wrap around exactly as the unsigned C++ operations do.
  The template parameter \<open>Size\<close> is the first argument of every operation. The backing
  array is a list of slots; its initial content is indeterminate (the array is not
  initialised by the constructor), so the freshly constructed buffer takes it as an
  argument.
\<close>

type_synonym size_t = "64 word"

record 'a circular_buffer =
  data_m :: "'a list"
  tail_m :: size_t
  size_m :: size_t

text \<open>The iterator holds the buffer pointer \<open>buf_\<close> and the position \<open>pos_\<close>; the
  buffer is passed to the operations that read through it.\<close>

record circular_buffer_iterator =
  pos_m :: size_t

definition construct :: "'a list \<Rightarrow> 'a circular_buffer" where
  "construct d = \<lparr>data_m = d, tail_m = 0, size_m = 0\<rparr>"

definition tail :: "'a circular_buffer \<Rightarrow> size_t" where
  "tail b = tail_m b"

definition head :: "'a circular_buffer \<Rightarrow> size_t" where
  "head b = tail_m b - size_m b"

definition size_cb :: "'a circular_buffer \<Rightarrow> size_t" where
  "size_cb b = size_m b"

definition capacity :: "size_t \<Rightarrow> 'a circular_buffer \<Rightarrow> size_t" where
  "capacity Size b = Size"

definition empty_cb :: "'a circular_buffer \<Rightarrow> bool" where
  "empty_cb b = (size_m b = 0)"


definition clear :: "'a circular_buffer \<Rightarrow> 'a circular_buffer" where
  "clear b = b\<lparr>tail_m := 0, size_m := 0\<rparr>"

text \<open>\<open>data(index)\<close> is the slot \<open>data_[index % Size]\<close>, read and written.\<close>

definition data :: "size_t \<Rightarrow> 'a circular_buffer \<Rightarrow> size_t \<Rightarrow> 'a" where
  "data Size b index = data_m b ! unat (index mod Size)"

definition data_write :: "size_t \<Rightarrow> 'a circular_buffer \<Rightarrow> size_t \<Rightarrow> 'a \<Rightarrow> 'a circular_buffer" where
  "data_write Size b index item = b\<lparr>data_m := (data_m b)[unat (index mod Size) := item]\<rparr>"

definition front :: "size_t \<Rightarrow> 'a circular_buffer \<Rightarrow> 'a" where
  "front Size b = data Size b (head b)"

definition back_cb :: "size_t \<Rightarrow> 'a circular_buffer \<Rightarrow> 'a" where
  "back_cb Size b = data Size b (tail_m b - 1)"

definition subscript :: "size_t \<Rightarrow> 'a circular_buffer \<Rightarrow> size_t \<Rightarrow> 'a" where
  "subscript Size b index = data Size b (head b + index)"

text \<open>
  \<open>push\<close>: \<open>data(tail_++) = item; ++size_; size_ = std::min(size_, Size);\<close>
\<close>

definition push :: "size_t \<Rightarrow> 'a circular_buffer \<Rightarrow> 'a \<Rightarrow> 'a circular_buffer" where
  "push Size b item =
     (let b1 = data_write Size b (tail_m b) item;
          b2 = b1\<lparr>tail_m := tail_m b1 + 1\<rparr>;
          b3 = b2\<lparr>size_m := size_m b2 + 1\<rparr>
      in b3\<lparr>size_m := min (size_m b3) Size\<rparr>)"

text \<open>
  \<open>pop\<close>: \<open>size_ -= 1 && !empty();\<close> The operand of \<open>-=\<close> is the boolean
  \<open>1 && !empty()\<close> converted to an integer.
\<close>

definition pop :: "'a circular_buffer \<Rightarrow> 'a circular_buffer" where
  "pop b = b\<lparr>size_m := size_m b - (if True \<and> \<not> empty_cb b then 1 else 0)\<rparr>"

definition begin_it :: "'a circular_buffer \<Rightarrow> circular_buffer_iterator" where
  "begin_it b = \<lparr>pos_m = 0\<rparr>"

definition end_it :: "'a circular_buffer \<Rightarrow> circular_buffer_iterator" where
  "end_it b = \<lparr>pos_m = size_m b\<rparr>"

text \<open>Iterator operations: \<open>*it\<close>, \<open>++it\<close>, \<open>it + n\<close>, \<open>it - rhs\<close>, \<open>it < rhs\<close>.\<close>

definition deref :: "size_t \<Rightarrow> 'a circular_buffer \<Rightarrow> circular_buffer_iterator \<Rightarrow> 'a" where
  "deref Size b it = subscript Size b (pos_m it)"

definition it_incr :: "circular_buffer_iterator \<Rightarrow> circular_buffer_iterator" where
  "it_incr it = it\<lparr>pos_m := pos_m it + 1\<rparr>"

definition it_plus :: "circular_buffer_iterator \<Rightarrow> size_t \<Rightarrow> circular_buffer_iterator" where
  "it_plus it n = it\<lparr>pos_m := pos_m it + n\<rparr>"

definition it_diff :: "circular_buffer_iterator \<Rightarrow> circular_buffer_iterator \<Rightarrow> size_t" where
  "it_diff it rhs = pos_m it - pos_m rhs"

definition it_less :: "circular_buffer_iterator \<Rightarrow> circular_buffer_iterator \<Rightarrow> bool" where
  "it_less it rhs = (pos_m it < pos_m rhs)"

text \<open>
  \<open>size_circle_end\<close>: \<open>std::min(size_, ((head() / Size) + 1) * Size - head())\<close>,
  and \<open>mend\<close>, the iterator at that position.
\<close>

definition size_circle_end :: "size_t \<Rightarrow> 'a circular_buffer \<Rightarrow> size_t" where
  "size_circle_end Size b = min (size_m b) (((head b div Size) + 1) * Size - head b)"

definition mend :: "size_t \<Rightarrow> 'a circular_buffer \<Rightarrow> circular_buffer_iterator" where
  "mend Size b = \<lparr>pos_m = size_circle_end Size b\<rparr>"

text \<open>
  \<open>update_head(head_next)\<close>:
  \<open>tail = tail_ % Size; head_next = head_next % Size;
   inc = (tail > head_next) ? (Size - tail + head_next) : (head_next - tail);
   size_ += inc; tail_ += inc; size_ = std::min(size_, Size);\<close>
\<close>

definition update_head :: "size_t \<Rightarrow> 'a circular_buffer \<Rightarrow> size_t \<Rightarrow> 'a circular_buffer" where
  "update_head Size b head_next0 =
     (let tail = tail_m b mod Size;
          head_next = head_next0 mod Size;
          inc = (if tail > head_next then Size - tail + head_next else head_next - tail);
          b1 = b\<lparr>size_m := size_m b + inc\<rparr>;
          b2 = b1\<lparr>tail_m := tail_m b1 + inc\<rparr>
      in b2\<lparr>size_m := min (size_m b2) Size\<rparr>)"

text \<open>
  The range-for loop over the buffer, \<open>for (auto& item : buffer)\<close>: from \<open>begin()\<close>
  while the iterator differs from \<open>end()\<close> (\<open>operator!=\<close> compares \<open>pos_\<close>), read
  \<open>*it\<close> and step with \<open>++it\<close>. The list of the elements read is the logical content.
\<close>

function iterate ::
  "size_t \<Rightarrow> 'a circular_buffer \<Rightarrow> circular_buffer_iterator \<Rightarrow> circular_buffer_iterator \<Rightarrow> 'a list"
where
  "iterate Size b it e =
     (if pos_m it = pos_m e then [] else deref Size b it # iterate Size b (it_incr it) e)"
  by pat_completeness auto
termination
proof (relation "measure (\<lambda>(Size, b, it, e). unat (pos_m e - pos_m it))")
  show "wf (measure (\<lambda>(Size, b, it, e). unat (pos_m e - pos_m it)))"
    by simp
next
  fix Size :: size_t and b :: "'a circular_buffer" and it e :: circular_buffer_iterator
  assume ne: "pos_m it \<noteq> pos_m e"
  then have "pos_m e - pos_m it \<noteq> 0" by simp
  then have lt: "unat (pos_m e - pos_m it - 1) < unat (pos_m e - pos_m it)"
    by unat_arith
  have eq: "pos_m e - pos_m (it_incr it) = pos_m e - pos_m it - 1"
    by (simp add: it_incr_def)
  show "((Size, b, it_incr it, e), (Size, b, it, e))
      \<in> measure (\<lambda>(Size, b, it, e). unat (pos_m e - pos_m it))"
    by (simp only: in_measure prod.case eq lt)
qed

declare iterate.simps [simp del]

definition to_list :: "size_t \<Rightarrow> 'a circular_buffer \<Rightarrow> 'a list" where
  "to_list Size b = iterate Size b (begin_it b) (end_it b)"

text \<open>
  \<open>operator<<(buffer, in_data)\<close>: \<open>for (auto& item : in_data) buffer.push(item);\<close>
\<close>

fun shift_in :: "size_t \<Rightarrow> 'a circular_buffer \<Rightarrow> 'a list \<Rightarrow> 'a circular_buffer" where
  "shift_in Size b [] = b"
| "shift_in Size b (item # in_data) = shift_in Size (push Size b item) in_data"

text \<open>
  \<open>operator>>(buffer, std::size_t size)\<close>:
  \<open>auto const end{buffer.begin() + size};
   for (auto iter{buffer.begin()}; iter < end; ++iter) buffer.pop();\<close>
  The count goes through \<open>difference_type\<close> and back into \<open>pos_\<close>, which leaves its
  64 bits as they are.
\<close>

function shift_out_loop ::
  "'a circular_buffer \<Rightarrow> circular_buffer_iterator \<Rightarrow> circular_buffer_iterator \<Rightarrow> 'a circular_buffer"
where
  "shift_out_loop b iter e =
     (if it_less iter e then shift_out_loop (pop b) (it_incr iter) e else b)"
  by pat_completeness auto
termination
proof (relation "measure (\<lambda>(b, iter, e). unat (pos_m e) - unat (pos_m iter))")
  show "wf (measure (\<lambda>(b, iter, e). unat (pos_m e) - unat (pos_m iter)))"
    by simp
next
  fix b :: "'a circular_buffer" and iter e :: circular_buffer_iterator
  assume "it_less iter e"
  then have lt: "pos_m iter < pos_m e" by (simp add: it_less_def)
  then have "unat (pos_m e) - unat (pos_m iter + 1) < unat (pos_m e) - unat (pos_m iter)"
    by unat_arith
  then show "((pop b, it_incr iter, e), (b, iter, e))
      \<in> measure (\<lambda>(b, iter, e). unat (pos_m e) - unat (pos_m iter))"
    by (simp add: it_incr_def)
qed

declare shift_out_loop.simps [simp del]

definition shift_out_n :: "'a circular_buffer \<Rightarrow> size_t \<Rightarrow> 'a circular_buffer" where
  "shift_out_n b n = shift_out_loop b (begin_it b) (it_plus (begin_it b) n)"

text \<open>
  \<open>operator>>(buffer, Array& out_data)\<close>:
  \<open>if (buffer.size() < out_data.size()) return buffer;
   for (auto& item : out_data) { item = buffer.front(); buffer.pop(); }\<close>
  The destination is a list of its current elements and \<open>out_data.size()\<close> is its
  length; the result is the buffer and the destination after the call.
\<close>

fun drain_loop :: "size_t \<Rightarrow> 'a circular_buffer \<Rightarrow> 'a list \<Rightarrow> 'a circular_buffer \<times> 'a list" where
  "drain_loop Size b [] = (b, [])"
| "drain_loop Size b (item # out_data) =
     (let item' = front Size b;
          b' = pop b;
          (b'', out_data') = drain_loop Size b' out_data
      in (b'', item' # out_data'))"

definition shift_out_seq ::
  "size_t \<Rightarrow> 'a circular_buffer \<Rightarrow> 'a list \<Rightarrow> 'a circular_buffer \<times> 'a list" where
  "shift_out_seq Size b out_data =
     (if unat (size_cb b) < length out_data then (b, out_data)
      else drain_loop Size b out_data)"

text \<open>
  \<open>operator==(buffer, in_data)\<close>:
  \<open>bool res; auto iter{buffer.begin()};
   for (auto& item : in_data) res = res & (item == (*(iter++)));
   return res;\<close>
  \<open>res\<close> is declared without an initialiser, so the value it starts with is not fixed
  by the program: it is the argument \<open>res0\<close>.
\<close>

fun eq_loop ::
  "size_t \<Rightarrow> 'a circular_buffer \<Rightarrow> bool \<Rightarrow> circular_buffer_iterator \<Rightarrow> 'a list \<Rightarrow> bool" where
  "eq_loop Size b res iter [] = res"
| "eq_loop Size b res iter (item # in_data) =
     eq_loop Size b (res \<and> (item = deref Size b iter)) (it_incr iter) in_data"

definition operator_eq :: "bool \<Rightarrow> size_t \<Rightarrow> 'a circular_buffer \<Rightarrow> 'a list \<Rightarrow> bool" where
  "operator_eq res0 Size b in_data = eq_loop Size b res0 (begin_it b) in_data"

text \<open>
  The instantiations the class admits. \<open>Size = 0\<close> makes every \<open>% Size\<close> a division by
  zero, and the backing array of \<open>Size\<close> slots, of at least one byte each, is an object,
  whose size cannot exceed \<open>PTRDIFF_MAX\<close>.
\<close>

definition PTRDIFF_MAX :: size_t where
  "PTRDIFF_MAX = 9223372036854775807"

definition valid_capacity :: "size_t \<Rightarrow> bool" where
  "valid_capacity Size = (0 < Size \<and> Size \<le> PTRDIFF_MAX)"

text \<open>A call of the public interface that changes the buffer, and a sequence of calls.\<close>

datatype 'a call =
    Push 'a
  | Pop
  | Clear
  | UpdateHead size_t
  | ShiftIn "'a list"
  | ShiftOutN size_t
  | ShiftOutSeq "'a list"

fun do_call :: "size_t \<Rightarrow> 'a circular_buffer \<Rightarrow> 'a call \<Rightarrow> 'a circular_buffer" where
  "do_call Size b (Push item) = push Size b item"
| "do_call Size b Pop = pop b"
| "do_call Size b Clear = clear b"
| "do_call Size b (UpdateHead head_next) = update_head Size b head_next"
| "do_call Size b (ShiftIn in_data) = shift_in Size b in_data"
| "do_call Size b (ShiftOutN n) = shift_out_n b n"
| "do_call Size b (ShiftOutSeq out_data) = fst (shift_out_seq Size b out_data)"

fun do_calls :: "size_t \<Rightarrow> 'a circular_buffer \<Rightarrow> 'a call list \<Rightarrow> 'a circular_buffer" where
  "do_calls Size b [] = b"
| "do_calls Size b (c # cs) = do_calls Size (do_call Size b c) cs"

text \<open>
  The forward wrapping distance in the words of the specification:
  \<open>(new_physical_position - current_physical_tail) mod Capacity\<close>, over the integers.
\<close>

definition spec_wrap_distance :: "nat \<Rightarrow> nat \<Rightarrow> nat \<Rightarrow> nat" where
  "spec_wrap_distance Capacity p t =
     nat ((int (p mod Capacity) - int (t mod Capacity)) mod int Capacity)"

section \<open>Removal\<close>

lemma pop_nonempty: "size_m b \<noteq> 0 \<Longrightarrow> pop b = b\<lparr>size_m := size_m b - 1\<rparr>"
  by (simp add: pop_def empty_cb_def)

lemma pop_empty: "size_m b = 0 \<Longrightarrow> pop b = b"
  by (simp add: pop_def empty_cb_def)

lemma unat_pred: "(w :: size_t) \<noteq> 0 \<Longrightarrow> unat (w - 1) = unat w - 1"
  by (simp add: unat_minus_one)

text \<open>
  Claim C4. \<open>pop()\<close> on a buffer that is not empty lowers \<open>size_\<close> by exactly one
  (as a number, with no wrap-around) and changes nothing else; on an empty buffer it
  returns the state unchanged, so the size stays 0. The operation is a total function
  of the state: there is no error branch.
\<close>

theorem pop_decrements_or_noop:
  "(\<not> empty_cb b \<longrightarrow>
      unat (size_cb (pop b)) + 1 = unat (size_cb b) \<and>
      tail_m (pop b) = tail_m b \<and> data_m (pop b) = data_m b) \<and>
   (empty_cb b \<longrightarrow> pop b = b \<and> size_cb (pop b) = 0)"
proof (cases "size_m b = 0")
  case True
  then show ?thesis by (simp add: pop_empty empty_cb_def size_cb_def)
next
  case False
  then have "unat (size_m b) \<noteq> 0" by (simp add: unat_eq_0)
  with False show ?thesis
    by (simp add: pop_nonempty empty_cb_def size_cb_def unat_pred)
qed

theorem pop_decrements_or_noop_witness:
  "unat (size_cb (pop (\<lparr>data_m = [7, 8, 9 :: nat], tail_m = 2, size_m = 2\<rparr>))) = 1 \<and>
   pop (construct [7, 8, 9 :: nat]) = construct [7, 8, 9]"
  using pop_decrements_or_noop [of "\<lparr>data_m = [7, 8, 9 :: nat], tail_m = 2, size_m = 2\<rparr>"]
        pop_decrements_or_noop [of "construct [7, 8, 9 :: nat]"]
  by (simp add: empty_cb_def size_cb_def construct_def)

section \<open>Field-level behaviour of the operations\<close>

lemma push_fields:
  "data_m (push Size b x) = (data_m b)[unat (tail_m b mod Size) := x]"
  "tail_m (push Size b x) = tail_m b + 1"
  "size_m (push Size b x) = min (size_m b + 1) Size"
  by (simp_all add: push_def data_write_def Let_def)

lemma pop_fields:
  "data_m (pop b) = data_m b"
  "tail_m (pop b) = tail_m b"
  "size_m (pop b) = (if size_m b = 0 then 0 else size_m b - 1)"
  by (simp_all add: pop_def empty_cb_def)

lemma update_head_fields:
  "data_m (update_head Size b p) = data_m b"
  "tail_m (update_head Size b p) =
     tail_m b + (if tail_m b mod Size > p mod Size
                 then Size - tail_m b mod Size + p mod Size
                 else p mod Size - tail_m b mod Size)"
  "size_m (update_head Size b p) =
     min (size_m b + (if tail_m b mod Size > p mod Size
                 then Size - tail_m b mod Size + p mod Size
                 else p mod Size - tail_m b mod Size)) Size"
  by (simp_all add: update_head_def Let_def)

lemma head_pop: "size_m b \<noteq> 0 \<Longrightarrow> head (pop b) = head b + 1"
  by (simp add: head_def pop_fields)

section \<open>The logical content read by iteration\<close>

lemma iterate_map:
  "iterate Size b it e =
     map (\<lambda>i. subscript Size b (pos_m it + of_nat i)) [0..<unat (pos_m e - pos_m it)]"
proof (induction "unat (pos_m e - pos_m it)" arbitrary: it)
  case 0
  then have "pos_m it = pos_m e" by (simp add: unat_eq_0)
  with 0 show ?case by (simp add: iterate.simps)
next
  case (Suc n)
  then have ne: "pos_m it \<noteq> pos_m e" by auto
  have step: "pos_m e - pos_m (it_incr it) = pos_m e - pos_m it - 1"
    by (simp add: it_incr_def)
  from Suc.hyps(2) have n: "n = unat (pos_m e - pos_m (it_incr it))"
    unfolding step by unat_arith
  have "iterate Size b it e = deref Size b it # iterate Size b (it_incr it) e"
    using ne by (subst iterate.simps) simp
  also have "iterate Size b (it_incr it) e =
      map (\<lambda>i. subscript Size b (pos_m (it_incr it) + of_nat i)) [0..<n]"
    using Suc.hyps(1) [OF n] n by simp
  also have "\<dots> = map (\<lambda>i. subscript Size b (pos_m it + of_nat (Suc i))) [0..<n]"
    by (simp add: it_incr_def add.assoc)
  also have "deref Size b it # \<dots> =
      map (\<lambda>i. subscript Size b (pos_m it + of_nat i)) [0..<Suc n]"
    by (simp only: map_upt_Suc) (simp add: deref_def)
  finally show ?case using Suc.hyps(2) by simp
qed

lemma to_list_map:
  "to_list Size b = map (\<lambda>i. subscript Size b (of_nat i)) [0..<unat (size_m b)]"
  by (simp add: to_list_def iterate_map begin_it_def end_it_def)

lemma length_to_list: "length (to_list Size b) = unat (size_m b)"
  by (simp add: to_list_map)

lemma to_list_empty: "size_m b = 0 \<Longrightarrow> to_list Size b = []"
  by (simp add: to_list_map)

lemma to_list_pop:
  assumes "size_m b \<noteq> 0"
  shows "to_list Size b = front Size b # to_list Size (pop b)"
proof -
  from assms obtain n where n: "unat (size_m b) = Suc n"
    by (metis unat_eq_0 not0_implies_Suc)
  with assms have n': "unat (size_m (pop b)) = n"
    by (simp add: pop_fields unat_minus_one)
  have "to_list Size b = subscript Size b 0 # map (\<lambda>i. subscript Size b (of_nat (Suc i))) [0..<n]"
    unfolding to_list_map n
    by (simp only: map_upt_Suc) simp
  moreover have "subscript Size b (of_nat (Suc i)) = subscript Size (pop b) (of_nat i)" for i
    using assms by (simp add: subscript_def data_def head_pop pop_fields add.assoc)
  moreover have "subscript Size b 0 = front Size b"
    by (simp add: subscript_def front_def)
  ultimately show ?thesis
    by (simp add: to_list_map n')
qed

lemma to_list_funpow_pop: "to_list Size ((pop ^^ k) b) = drop k (to_list Size b)"
proof (induction k arbitrary: b)
  case 0
  show ?case by simp
next
  case (Suc k)
  show ?case
  proof (cases "size_m b = 0")
    case True
    then have "pop b = b" by (simp add: pop_empty)
    with True Suc [of b] show ?thesis
      by (simp add: funpow_swap1 to_list_empty)
  next
    case False
    with Suc [of "pop b"] show ?thesis
      by (simp add: funpow_swap1 to_list_pop [OF False])
  qed
qed

section \<open>Discarding a count of elements\<close>

lemma shift_out_loop_funpow:
  "shift_out_loop b iter e = (pop ^^ (unat (pos_m e) - unat (pos_m iter))) b"
proof (induction b iter e rule: shift_out_loop.induct)
  case (1 b iter e)
  show ?case
  proof (cases "it_less iter e")
    case True
    then have lt: "pos_m iter < pos_m e" by (simp add: it_less_def)
    then have "unat (pos_m e) - unat (pos_m iter) = Suc (unat (pos_m e) - unat (pos_m iter + 1))"
      by unat_arith
    moreover have "pos_m (it_incr iter) = pos_m iter + 1" by (simp add: it_incr_def)
    ultimately show ?thesis
      using 1 [OF True] True
      by (subst shift_out_loop.simps) (simp add: funpow_swap1)
  next
    case False
    then have "unat (pos_m e) - unat (pos_m iter) = 0"
      by (simp add: it_less_def word_less_nat_alt)
    with False show ?thesis
      by (subst shift_out_loop.simps) simp
  qed
qed

lemma shift_out_n_funpow: "shift_out_n b n = (pop ^^ unat n) b"
  by (simp add: shift_out_n_def shift_out_loop_funpow begin_it_def it_plus_def)

lemma size_funpow_pop: "unat (size_m ((pop ^^ k) b)) = unat (size_m b) - k"
proof (induction k)
  case 0
  show ?case by simp
next
  case (Suc k)
  show ?case
  proof (cases "size_m ((pop ^^ k) b) = 0")
    case True
    with Suc show ?thesis by (simp add: pop_fields)
  next
    case False
    with Suc show ?thesis by (simp add: pop_fields unat_minus_one)
  qed
qed

lemma tail_funpow_pop: "tail_m ((pop ^^ k) b) = tail_m b"
  by (induction k) (simp_all add: pop_fields)

lemma data_funpow_pop: "data_m ((pop ^^ k) b) = data_m b"
  by (induction k) (simp_all add: pop_fields)


section \<open>Draining into a destination\<close>

lemma fst_drain_loop: "fst (drain_loop Size b out_data) = (pop ^^ length out_data) b"
  by (induction out_data arbitrary: b) (simp_all add: Let_def funpow_swap1 split_beta)

lemma snd_drain_loop:
  "length out_data \<le> unat (size_m b) \<Longrightarrow>
     snd (drain_loop Size b out_data) = take (length out_data) (to_list Size b)"
proof (induction out_data arbitrary: b)
  case Nil
  show ?case by simp
next
  case (Cons item out_data)
  then have ne: "size_m b \<noteq> 0" by auto
  with Cons.prems have "length out_data \<le> unat (size_m (pop b))"
    by (simp add: pop_fields unat_minus_one)
  from Cons.IH [OF this] show ?case
    by (simp add: Let_def to_list_pop [OF ne] split_beta)
qed

text \<open>
  Claim C5. \<open>buffer >> out_data\<close> is all or nothing. When the destination has at most
  \<open>size()\<close> elements, it receives the oldest \<open>out_data.size()\<close> elements of the
  buffer in head-to-tail order, the buffer is popped that many times, its size goes
  down by that count and what it still holds is the rest of its content. When the
  destination is longer than the content, buffer and destination are returned as they
  were.
\<close>

theorem shift_out_seq_all_or_nothing:
  "(length out_data \<le> unat (size_cb b) \<longrightarrow>
      shift_out_seq Size b out_data =
        ((pop ^^ length out_data) b, take (length out_data) (to_list Size b)) \<and>
      unat (size_cb (fst (shift_out_seq Size b out_data))) = unat (size_cb b) - length out_data \<and>
      to_list Size (fst (shift_out_seq Size b out_data)) = drop (length out_data) (to_list Size b)) \<and>
   (unat (size_cb b) < length out_data \<longrightarrow> shift_out_seq Size b out_data = (b, out_data))"
proof (intro conjI impI)
  assume le: "length out_data \<le> unat (size_cb b)"
  then have run: "shift_out_seq Size b out_data = drain_loop Size b out_data"
    by (simp add: shift_out_seq_def)
  from le have "length out_data \<le> unat (size_m b)" by (simp add: size_cb_def)
  then show eq: "shift_out_seq Size b out_data =
      ((pop ^^ length out_data) b, take (length out_data) (to_list Size b))"
    unfolding run using fst_drain_loop [of Size b out_data] snd_drain_loop [of out_data b Size]
    by (simp add: prod_eq_iff)
  show "unat (size_cb (fst (shift_out_seq Size b out_data))) = unat (size_cb b) - length out_data"
    by (simp add: eq size_cb_def size_funpow_pop)
  show "to_list Size (fst (shift_out_seq Size b out_data)) = drop (length out_data) (to_list Size b)"
    by (simp add: eq to_list_funpow_pop)
next
  assume "unat (size_cb b) < length out_data"
  then show "shift_out_seq Size b out_data = (b, out_data)"
    by (simp add: shift_out_seq_def)
qed

theorem shift_out_seq_all_or_nothing_witness:
  "length [9, 9 :: nat] \<le> unat (size_cb \<lparr>data_m = [1, 2, 3, 0], tail_m = 3, size_m = 3\<rparr>) \<and>
   shift_out_seq 4 \<lparr>data_m = [1, 2, 3, 0], tail_m = 3, size_m = 3\<rparr> [9, 9 :: nat] =
     (\<lparr>data_m = [1, 2, 3, 0], tail_m = 3, size_m = 1\<rparr>, [1, 2]) \<and>
   unat (size_cb \<lparr>data_m = [1, 2, 3, 0 :: nat], tail_m = 3, size_m = 3\<rparr>) < length [9, 9, 9, 9 :: nat] \<and>
   shift_out_seq 4 \<lparr>data_m = [1, 2, 3, 0], tail_m = 3, size_m = 3\<rparr> [9, 9, 9, 9 :: nat] =
     (\<lparr>data_m = [1, 2, 3, 0], tail_m = 3, size_m = 3\<rparr>, [9, 9, 9, 9])"
  using shift_out_seq_all_or_nothing
          [of "[9, 9]" "\<lparr>data_m = [1, 2, 3, 0], tail_m = 3, size_m = 3\<rparr>" 4]
        shift_out_seq_all_or_nothing
          [of "[9, 9, 9, 9]" "\<lparr>data_m = [1, 2, 3, 0], tail_m = 3, size_m = 3\<rparr>" 4]
  by (simp add: size_cb_def shift_out_seq_def shift_out_n_def shift_out_loop.simps
        to_list_def iterate.simps begin_it_def end_it_def it_incr_def it_plus_def it_less_def
        deref_def subscript_def front_def data_def head_def pop_def empty_cb_def)

text \<open>
  Claim C9. \<open>buffer >> n\<close> leaves the buffer in exactly the state that \<open>n\<close> calls of
  \<open>pop()\<close> leave it in. The content afterwards is the content before without its
  \<open>n\<close> oldest elements, and the size is the size before less \<open>n\<close>, stopping at 0:
  once the buffer is empty the remaining pops change nothing.
\<close>

theorem shift_out_n_is_repeated_pop:
  "shift_out_n b n = (pop ^^ unat n) b \<and>
   to_list Size (shift_out_n b n) = drop (unat n) (to_list Size b) \<and>
   unat (size_cb (shift_out_n b n)) = unat (size_cb b) - unat n"
  by (simp add: shift_out_n_funpow to_list_funpow_pop size_cb_def size_funpow_pop)

theorem shift_out_n_is_repeated_pop_witness:
  "shift_out_n \<lparr>data_m = [1, 2, 3, 0 :: nat], tail_m = 3, size_m = 3\<rparr> 5 =
     \<lparr>data_m = [1, 2, 3, 0], tail_m = 3, size_m = 0\<rparr> \<and>
   to_list 4 (shift_out_n \<lparr>data_m = [1, 2, 3, 0 :: nat], tail_m = 3, size_m = 3\<rparr> 2) = [3]"
  using shift_out_n_is_repeated_pop [of "\<lparr>data_m = [1, 2, 3, 0], tail_m = 3, size_m = 3\<rparr>" 5 4]
        shift_out_n_is_repeated_pop [of "\<lparr>data_m = [1, 2, 3, 0], tail_m = 3, size_m = 3\<rparr>" 2 4]
  by (simp add: size_cb_def shift_out_seq_def shift_out_n_def shift_out_loop.simps
        to_list_def iterate.simps begin_it_def end_it_def it_incr_def it_plus_def it_less_def
        deref_def subscript_def front_def data_def head_def pop_def empty_cb_def)

section \<open>The size never exceeds the capacity\<close>

lemma size_push_le: "size_m (push Size b item) \<le> Size"
  by (simp add: push_fields)

lemma size_update_head_le: "size_m (update_head Size b p) \<le> Size"
  by (simp add: update_head_fields)

lemma word_pred_le: "(w :: size_t) \<noteq> 0 \<Longrightarrow> w - 1 \<le> w"
  by unat_arith

lemma size_pop_le: "size_m (pop b) \<le> size_m b"
  by (simp add: pop_fields word_pred_le)

lemma size_funpow_pop_le: "size_m ((pop ^^ k) b) \<le> size_m b"
proof (induction k)
  case 0
  show ?case by simp
next
  case (Suc k)
  have "size_m (pop ((pop ^^ k) b)) \<le> size_m ((pop ^^ k) b)" by (rule size_pop_le)
  with Suc show ?case by simp
qed

lemma size_shift_in_le: "size_m b \<le> Size \<Longrightarrow> size_m (shift_in Size b in_data) \<le> Size"
  by (induction in_data arbitrary: b) (simp_all add: size_push_le)

lemma size_do_call_le: "size_m b \<le> Size \<Longrightarrow> size_m (do_call Size b c) \<le> Size"
proof (cases c)
  case (Push item)
  then show ?thesis by (simp add: size_push_le)
next
  case Pop
  assume "size_m b \<le> Size"
  with size_pop_le [of b] Pop show ?thesis by simp
next
  case Clear
  then show ?thesis by (simp add: clear_def)
next
  case (UpdateHead p)
  then show ?thesis by (simp add: size_update_head_le)
next
  case (ShiftIn in_data)
  assume "size_m b \<le> Size"
  with ShiftIn show ?thesis by (simp add: size_shift_in_le)
next
  case (ShiftOutN n)
  assume "size_m b \<le> Size"
  with size_funpow_pop_le [of "unat n" b] ShiftOutN show ?thesis
    by (simp add: shift_out_n_funpow)
next
  case (ShiftOutSeq out_data)
  assume "size_m b \<le> Size"
  with size_funpow_pop_le [of "length out_data" b] ShiftOutSeq show ?thesis
    by (auto simp add: shift_out_seq_def fst_drain_loop)
qed

lemma size_do_calls_le: "size_m b \<le> Size \<Longrightarrow> size_m (do_calls Size b cs) \<le> Size"
  by (induction cs arbitrary: b) (simp_all add: size_do_call_le)

text \<open>
  Claim C8. \<open>size() \<le> Capacity\<close> is an invariant: every call of \<open>push\<close>, \<open>pop\<close>,
  \<open>clear\<close>, \<open>update_head\<close>, \<open><<\<close> and both \<open>>>\<close> operators keeps it, and it holds
  after any sequence of such calls on the freshly constructed buffer.
\<close>

theorem size_never_exceeds_capacity:
  "(size_cb b \<le> capacity Size b \<longrightarrow> size_cb (do_call Size b c) \<le> capacity Size b) \<and>
   size_cb (do_calls Size (construct d) cs) \<le> capacity Size (construct d)"
  by (simp add: size_cb_def capacity_def size_do_call_le size_do_calls_le construct_def)

theorem size_never_exceeds_capacity_witness:
  "size_cb (construct [0, 0 :: nat]) \<le> capacity 2 (construct [0, 0 :: nat]) \<and>
   size_cb (do_call 2 (construct [0, 0 :: nat]) (Push 5)) \<le> capacity 2 (construct [0, 0 :: nat]) \<and>
   size_cb (do_calls 2 (construct [0, 0 :: nat]) [Push 1, Push 2, Push 3, UpdateHead 1, Pop])
     \<le> capacity 2 (construct [0, 0 :: nat])"
  using size_never_exceeds_capacity
          [of "construct [0, 0 :: nat]" 2 "Push 5" "[0, 0 :: nat]"
              "[Push 1, Push 2, Push 3, UpdateHead 1, Pop]"]
  by (simp add: size_cb_def capacity_def construct_def)

section \<open>The contiguous run marked by \<open>mend\<close>\<close>

lemma contiguous_run_word: "((h :: size_t) div S + 1) * S - h = S - h mod S"
proof -
  have "(h div S + 1) * S - h = (h div S * S + S) - (h div S * S + h mod S)"
    by (simp only: div_mult_mod_eq distrib_right mult_1)
  then show ?thesis by simp
qed

lemma size_circle_end_eq:
  "size_circle_end Size b = min (size_m b) (Size - head b mod Size)"
  by (simp add: size_circle_end_def contiguous_run_word)

lemma unat_contiguous_run:
  "0 < (S :: size_t) \<Longrightarrow> unat (S - h mod S) = unat S - unat h mod unat S"
proof -
  assume "0 < S"
  then have "h mod S < S" by (simp add: word_mod_less_divisor)
  then have "h mod S \<le> S" by simp
  then show ?thesis by (simp add: unat_sub unat_mod)
qed

text \<open>
  Claim C3. For every state of a buffer with \<open>Capacity > 0\<close>, \<open>mend()\<close> is
  \<open>begin() + min(size, Capacity - head mod Capacity)\<close>; the subtraction does not wrap, so
  as a number \<open>mend() - begin()\<close> is the smaller of the size and the count of slots from
  the physical head to the end of the array. With \<open>Capacity = 10\<close> and 8 elements from
  physical offset 6, \<open>mend() - begin()\<close> is 4.
\<close>

theorem mend_contiguous_run:
  "0 < Size \<Longrightarrow>
     mend Size b = it_plus (begin_it b) (min (size_cb b) (Size - head b mod Size)) \<and>
     unat (it_diff (mend Size b) (begin_it b)) =
       min (unat (size_cb b)) (unat Size - unat (head b) mod unat Size) \<and>
     (Size = 10 \<and> size_cb b = 8 \<and> head b mod Size = 6 \<longrightarrow>
        it_diff (mend Size b) (begin_it b) = 4)"
proof (intro conjI impI)
  assume pos: "0 < Size"
  show "mend Size b = it_plus (begin_it b) (min (size_cb b) (Size - head b mod Size))"
    by (simp add: mend_def it_plus_def begin_it_def size_cb_def size_circle_end_eq)
  have "unat (min (size_m b) (Size - head b mod Size)) =
      min (unat (size_m b)) (unat (Size - head b mod Size))"
    by (simp add: min_def word_le_nat_alt)
  then show "unat (it_diff (mend Size b) (begin_it b)) =
      min (unat (size_cb b)) (unat Size - unat (head b) mod unat Size)"
    by (simp add: mend_def begin_it_def it_diff_def size_cb_def size_circle_end_eq
          unat_contiguous_run [OF pos])
next
  assume "Size = 10 \<and> size_cb b = 8 \<and> head b mod Size = 6"
  then have "Size = 10" and "size_m b = 8" and "head b mod 10 = 6"
    by (auto simp add: size_cb_def)
  then show "it_diff (mend Size b) (begin_it b) = 4"
    by (simp add: mend_def begin_it_def it_diff_def size_circle_end_eq)
qed

theorem mend_contiguous_run_witness:
  "(0 :: size_t) < 10 \<and>
   mend 10 \<lparr>data_m = replicate 10 (0 :: nat), tail_m = 14, size_m = 8\<rparr> = \<lparr>pos_m = 4\<rparr> \<and>
   head \<lparr>data_m = replicate 10 (0 :: nat), tail_m = 14, size_m = 8\<rparr> mod 10 = 6 \<and>
   it_diff (mend 10 \<lparr>data_m = replicate 10 (0 :: nat), tail_m = 14, size_m = 8\<rparr>)
     (begin_it \<lparr>data_m = replicate 10 (0 :: nat), tail_m = 14, size_m = 8\<rparr>) = 4"
  using mend_contiguous_run [of 10 "\<lparr>data_m = replicate 10 (0 :: nat), tail_m = 14, size_m = 8\<rparr>"]
  by (simp add: head_def size_cb_def it_plus_def it_diff_def begin_it_def)

section \<open>Reconciling the cursors with \<open>update_head\<close>\<close>

lemma unat_size_t_less: "unat (w :: size_t) < 2 ^ 64"
  using unsigned_less [of w, where ?'a = nat] by simp

lemma unat_add_no_wrap:
  "unat (x :: size_t) + unat y < 2 ^ 64 \<Longrightarrow> unat (x + y) = unat x + unat y"
  using unat_add_lem [of x y] by simp

lemma unat_of_nat_size_t: "n < 2 ^ 64 \<Longrightarrow> unat (of_nat n :: size_t) = n"
  by (simp add: unat_of_nat)

lemma spec_wrap_distance_cases:
  assumes "0 < C"
  shows "spec_wrap_distance C p t =
    (if t mod C > p mod C then C - t mod C + p mod C else p mod C - t mod C)"
proof (cases "t mod C > p mod C")
  case True
  have "t mod C < C" using assms by simp
  have "(int (p mod C) - int (t mod C)) mod int C
      = (int (p mod C) - int (t mod C) + int C) mod int C"
    by simp
  also have "\<dots> = int (p mod C) - int (t mod C) + int C"
    using True \<open>t mod C < C\<close> by (intro mod_pos_pos_trivial) linarith+
  finally show ?thesis
    using True \<open>t mod C < C\<close> by (simp add: spec_wrap_distance_def)
next
  case False
  have "p mod C < C" using assms by simp
  have "(int (p mod C) - int (t mod C)) mod int C = int (p mod C) - int (t mod C)"
    using False \<open>p mod C < C\<close> by (intro mod_pos_pos_trivial) linarith+
  then show ?thesis
    using False by (simp add: spec_wrap_distance_def)
qed

lemma spec_wrap_distance_less: "0 < C \<Longrightarrow> spec_wrap_distance C p t < C"
  by (simp add: spec_wrap_distance_def nat_less_iff)

lemma spec_wrap_distance_reaches:
  assumes "0 < C"
  shows "(t + spec_wrap_distance C p t) mod C = p mod C"
proof -
  have "t mod C < C" "p mod C < C" using assms by simp_all
  have "(t + spec_wrap_distance C p t) mod C = (t mod C + spec_wrap_distance C p t) mod C"
    by (simp add: mod_add_left_eq)
  also have "\<dots> = p mod C"
  proof (cases "t mod C > p mod C")
    case True
    then have "t mod C + spec_wrap_distance C p t = p mod C + C"
      using \<open>t mod C < C\<close> by (simp add: spec_wrap_distance_cases [OF assms])
    then show ?thesis by simp
  next
    case False
    then have "t mod C + spec_wrap_distance C p t = p mod C"
      by (simp add: spec_wrap_distance_cases [OF assms])
    then show ?thesis by simp
  qed
  finally show ?thesis .
qed


lemma unat_inc:
  assumes "0 < (Size :: size_t)"
  shows "unat (if t mod Size > p mod Size
                 then Size - t mod Size + p mod Size
                 else p mod Size - t mod Size)
         = spec_wrap_distance (unat Size) (unat p) (unat t)"
proof -
  from assms have pos: "0 < unat Size" by (simp add: unat_gt_0)
  have tl: "t mod Size < Size" and pl: "p mod Size < Size"
    using assms by (simp_all add: word_mod_less_divisor)
  show ?thesis
  proof (cases "t mod Size > p mod Size")
    case True
    have sub: "unat (Size - t mod Size) = unat Size - unat (t mod Size)"
      using tl by (simp add: unat_sub)
    have "unat Size - unat (t mod Size) + unat (p mod Size) < unat Size"
      using True tl by (simp add: word_less_nat_alt)
    also have "unat Size < 2 ^ 64" by (rule unat_size_t_less)
    finally have "unat (Size - t mod Size + p mod Size)
        = unat Size - unat (t mod Size) + unat (p mod Size)"
      using sub by (simp add: unat_add_no_wrap)
    with True show ?thesis
      by (simp add: spec_wrap_distance_cases [OF pos] unat_mod word_less_nat_alt)
  next
    case False
    then have "unat (p mod Size - t mod Size) = unat (p mod Size) - unat (t mod Size)"
      by (simp add: unat_sub)
    with False show ?thesis
      by (simp add: spec_wrap_distance_cases [OF pos] unat_mod word_less_nat_alt)
  qed
qed


lemma update_head_tail:
  assumes "0 < Size"
  shows "tail_m (update_head Size b p) =
    tail_m b + of_nat (spec_wrap_distance (unat Size) (unat p) (unat (tail_m b)))"
  unfolding unat_inc [OF assms, symmetric] by (simp add: update_head_def Let_def)

lemma update_head_size:
  assumes "0 < Size"
  shows "size_m (update_head Size b p) =
    min (size_m b + of_nat (spec_wrap_distance (unat Size) (unat p) (unat (tail_m b)))) Size"
  unfolding unat_inc [OF assms, symmetric] by (simp add: update_head_def Let_def)

lemma update_head_data: "data_m (update_head Size b p) = data_m b"
  by (simp add: update_head_def Let_def)

lemma valid_capacity_pos: "valid_capacity Size \<Longrightarrow> 0 < Size"
  by (simp add: valid_capacity_def)

lemma valid_capacity_unat: "valid_capacity Size \<Longrightarrow> 0 < unat Size \<and> unat Size < 2 ^ 63"
  by (auto simp add: valid_capacity_def PTRDIFF_MAX_def word_le_nat_alt word_less_nat_alt)

lemma update_head_size_unat:
  assumes cap: "valid_capacity Size" and inv: "size_m b \<le> Size"
  shows "unat (size_m (update_head Size b p)) =
    min (unat (size_m b) + spec_wrap_distance (unat Size) (unat p) (unat (tail_m b))) (unat Size)"
proof -
  let ?d = "spec_wrap_distance (unat Size) (unat p) (unat (tail_m b))"
  have C: "0 < unat Size" "unat Size < 2 ^ 63"
    using valid_capacity_unat [OF cap] by simp_all
  have d: "?d < unat Size" using C(1) by (rule spec_wrap_distance_less)
  then have dw: "unat (of_nat ?d :: size_t) = ?d"
    using C(2) by (simp add: unat_of_nat_size_t)
  from inv have "unat (size_m b) \<le> unat Size" by (simp add: word_le_nat_alt)
  with d C(2) have "unat (size_m b) + unat (of_nat ?d :: size_t) < 2 ^ 64"
    by (simp add: dw)
  then have "unat (size_m b + of_nat ?d) = unat (size_m b) + ?d"
    by (simp add: unat_add_no_wrap dw)
  then show ?thesis
    by (simp add: update_head_size [OF valid_capacity_pos [OF cap]] min_def word_le_nat_alt)
qed

lemma update_head_slot:
  assumes pos: "0 < Size"
    and nowrap: "unat (tail_m b) + spec_wrap_distance (unat Size) (unat p) (unat (tail_m b)) < 2 ^ 64
      \<or> unat Size dvd 2 ^ 64"
  shows "tail_m (update_head Size b p) mod Size = p mod Size"
proof -
  let ?C = "unat Size"
  let ?d = "spec_wrap_distance ?C (unat p) (unat (tail_m b))"
  from pos have C: "0 < ?C" by (simp add: unat_gt_0)
  have "unat (tail_m (update_head Size b p)) = (unat (tail_m b) + ?d) mod 2 ^ 64"
    by (simp add: update_head_tail [OF pos] unat_word_ariths unat_of_nat mod_add_right_eq)
  moreover have "((unat (tail_m b) + ?d) mod 2 ^ 64) mod ?C = (unat (tail_m b) + ?d) mod ?C"
    using nowrap
  proof
    assume "unat (tail_m b) + ?d < 2 ^ 64"
    then show ?thesis by simp
  next
    assume "?C dvd 2 ^ 64"
    then show ?thesis by (rule mod_mod_cancel)
  qed
  ultimately have "unat (tail_m (update_head Size b p) mod Size) = unat (p mod Size)"
    by (simp add: unat_mod spec_wrap_distance_reaches [OF C])
  then show ?thesis by (rule word_unat_eq_iff [THEN iffD2])
qed

lemma update_head_idem:
  assumes pos: "0 < Size"
    and nowrap: "unat (tail_m b) + spec_wrap_distance (unat Size) (unat p) (unat (tail_m b)) < 2 ^ 64
      \<or> unat Size dvd 2 ^ 64"
  shows "update_head Size (update_head Size b p) p = update_head Size b p"
proof -
  let ?b = "update_head Size b p"
  have slot: "tail_m ?b mod Size = p mod Size"
    using pos nowrap by (rule update_head_slot)
  have "size_m ?b \<le> Size" by (simp add: update_head_def Let_def)
  then have "min (size_m ?b) Size = size_m ?b" by (simp add: min_def)
  then show ?thesis
    by (subst (1) update_head_def) (simp add: Let_def slot)
qed

lemma to_list_unwrapped:
  assumes pos: "0 < Size"
    and tl: "tail_m b \<le> Size"
    and sz: "size_m b \<le> tail_m b"
    and len: "length (data_m b) = unat Size"
  shows "to_list Size b = take (unat (size_m b)) (drop (unat (head b)) (data_m b))"
proof (rule nth_equalityI)
  have h: "unat (head b) = unat (tail_m b) - unat (size_m b)"
    using sz by (simp add: head_def unat_sub)
  have tC: "unat (tail_m b) \<le> unat Size" and st: "unat (size_m b) \<le> unat (tail_m b)"
    using tl sz by (simp_all add: word_le_nat_alt)
  show "length (to_list Size b) = length (take (unat (size_m b)) (drop (unat (head b)) (data_m b)))"
    using tC st by (simp add: length_to_list len h)
  fix i
  assume "i < length (to_list Size b)"
  then have i: "i < unat (size_m b)" by (simp add: length_to_list)
  have bound: "unat (head b) + i < unat Size" using i tC st h by simp
  have "unat Size < 2 ^ 64" by (rule unat_size_t_less)
  with i bound have iw: "unat (of_nat i :: size_t) = i"
    by (simp add: unat_of_nat_size_t)
  with bound \<open>unat Size < 2 ^ 64\<close> have "unat (head b + of_nat i) = unat (head b) + i"
    by (simp add: unat_add_no_wrap)
  with bound have "unat ((head b + of_nat i) mod Size) = unat (head b) + i"
    by (simp add: unat_mod)
  with i bound len show "to_list Size b ! i = take (unat (size_m b)) (drop (unat (head b)) (data_m b)) ! i"
    by (simp add: to_list_map subscript_def data_def)
qed

text \<open>
  Claim C2. On a buffer of an admitted capacity whose size is within the capacity,
  \<open>update_head(p)\<close> adds to \<open>tail\<close> the forward wrapping distance
  \<open>d = (p mod Capacity - tail mod Capacity) mod Capacity\<close>, which is less than
  \<open>Capacity\<close>, and sets the size to the smaller of \<open>size + d\<close> and \<open>Capacity\<close>
  (\<open>tail\<close> is a 64-bit cursor, so its addition is that of \<open>size_t\<close>). On the freshly
  constructed buffer of capacity 10 over ten bytes written from outside,
  \<open>update_head(4)\<close> gives size 4 and the first four bytes as content; \<open>update_head(8)\<close>
  right after advances tail and size by 4 more, and after the four elements were
  discarded it yields the next four bytes.
\<close>

theorem update_head_advances_by_wrap_distance:
  assumes "valid_capacity Size" and "size_cb b \<le> Size" and "length bytes = 10"
  shows "spec_wrap_distance (unat Size) (unat p) (unat (tail b)) < unat Size \<and>
    tail (update_head Size b p) =
      tail b + of_nat (spec_wrap_distance (unat Size) (unat p) (unat (tail b))) \<and>
    unat (size_cb (update_head Size b p)) =
      min (unat (size_cb b) + spec_wrap_distance (unat Size) (unat p) (unat (tail b))) (unat Size) \<and>
    size_cb (update_head 10 (construct bytes) 4) = 4 \<and>
    to_list 10 (update_head 10 (construct bytes) 4) = take 4 bytes \<and>
    tail (update_head 10 (update_head 10 (construct bytes) 4) 8) =
      tail (update_head 10 (construct bytes) 4) + 4 \<and>
    size_cb (update_head 10 (update_head 10 (construct bytes) 4) 8) =
      size_cb (update_head 10 (construct bytes) 4) + 4 \<and>
    to_list 10 (update_head 10 (update_head 10 (construct bytes) 4) 8) = take 8 bytes \<and>
    to_list 10 (update_head 10 (shift_out_n (update_head 10 (construct bytes) 4) 4) 8) =
      take 4 (drop 4 bytes)"
proof (intro conjI)
  have pos: "0 < Size" using assms(1) by (rule valid_capacity_pos)
  then show "spec_wrap_distance (unat Size) (unat p) (unat (tail b)) < unat Size"
    by (simp add: spec_wrap_distance_less unat_gt_0)
  show "tail (update_head Size b p) =
      tail b + of_nat (spec_wrap_distance (unat Size) (unat p) (unat (tail b)))"
    by (simp add: tail_def update_head_tail [OF pos])
  show "unat (size_cb (update_head Size b p)) =
      min (unat (size_cb b) + spec_wrap_distance (unat Size) (unat p) (unat (tail b))) (unat Size)"
    using assms(1,2) by (simp add: tail_def size_cb_def update_head_size_unat)
next
  let ?b1 = "update_head 10 (construct bytes) 4"
  let ?b2 = "update_head 10 ?b1 8"
  let ?b3 = "update_head 10 (shift_out_n ?b1 4) 8"
  have b1: "?b1 = \<lparr>data_m = bytes, tail_m = 4, size_m = 4\<rparr>"
    by (simp add: update_head_def construct_def Let_def)
  have b2: "update_head 10 \<lparr>data_m = bytes, tail_m = 4, size_m = 4\<rparr> 8 =
      \<lparr>data_m = bytes, tail_m = 8, size_m = 8\<rparr>"
    by (simp add: update_head_def Let_def)
  have out: "shift_out_n \<lparr>data_m = bytes, tail_m = 4, size_m = 4\<rparr> 4 =
      \<lparr>data_m = bytes, tail_m = 4, size_m = 0\<rparr>"
    by (simp add: shift_out_n_def shift_out_loop.simps begin_it_def it_plus_def it_less_def
          it_incr_def pop_def empty_cb_def)
  have b3: "update_head 10 \<lparr>data_m = bytes, tail_m = 4, size_m = 0\<rparr> 8 =
      \<lparr>data_m = bytes, tail_m = 8, size_m = 4\<rparr>"
    by (simp add: update_head_def Let_def)
  show "size_cb ?b1 = 4" by (simp add: b1 size_cb_def)
  show "tail ?b2 = tail ?b1 + 4" by (simp add: b1 b2 tail_def)
  show "size_cb ?b2 = size_cb ?b1 + 4" by (simp add: b1 b2 size_cb_def)
  show "to_list 10 ?b1 = take 4 bytes"
    unfolding b1 using assms(3) by (subst to_list_unwrapped) (simp_all add: head_def)
  show "to_list 10 ?b2 = take 8 bytes"
    unfolding b1 b2 using assms(3) by (subst to_list_unwrapped) (simp_all add: head_def)
  show "to_list 10 ?b3 = take 4 (drop 4 bytes)"
    unfolding b1 out b3 using assms(3) by (subst to_list_unwrapped) (simp_all add: head_def)
qed

theorem update_head_advances_by_wrap_distance_witness:
  "valid_capacity 10 \<and> size_cb (construct ''abcdefghij'') \<le> 10 \<and> length ''abcdefghij'' = 10 \<and>
   tail (update_head 10 (construct ''abcdefghij'') 4) = 4 \<and>
   unat (size_cb (update_head 10 (construct ''abcdefghij'') 4)) = 4 \<and>
   to_list 10 (update_head 10 (construct ''abcdefghij'') 4) = ''abcd'' \<and>
   to_list 10 (update_head 10 (update_head 10 (construct ''abcdefghij'') 4) 8) = ''abcdefgh'' \<and>
   to_list 10 (update_head 10 (shift_out_n (update_head 10 (construct ''abcdefghij'') 4) 4) 8) =
     ''efgh''"
proof -
  have h1: "valid_capacity 10" by (simp add: valid_capacity_def PTRDIFF_MAX_def)
  have h2: "size_cb (construct ''abcdefghij'') \<le> 10" by (simp add: size_cb_def construct_def)
  have h3: "length ''abcdefghij'' = 10" by simp
  show ?thesis
    using h1 h2 h3 update_head_advances_by_wrap_distance [OF h1 h2 h3, of 4]
    by (simp add: spec_wrap_distance_def tail_def construct_def)
qed

text \<open>
  Claim C10, as amended. \<open>update_head(p)\<close> called twice leaves the state that one call
  leaves, for every state in which adding the wrapping distance to \<open>tail\<close> stays below
  \<open>2 ^ 64\<close>, and for every state when \<open>Capacity\<close> divides \<open>2 ^ 64\<close>: then the physical
  tail after the first call is \<open>p mod Capacity\<close> and the second call advances by 0.
\<close>

theorem update_head_idempotent_without_wrap:
  assumes "0 < Size"
    and "unat (tail b) + spec_wrap_distance (unat Size) (unat p) (unat (tail b)) < 2 ^ 64
      \<or> unat Size dvd 2 ^ 64"
  shows "update_head Size (update_head Size b p) p = update_head Size b p"
  using assms unfolding tail_def by (rule update_head_idem)

theorem update_head_idempotent_without_wrap_witness:
  "(0 :: size_t) < 10 \<and>
   unat (tail \<lparr>data_m = replicate 10 (0 :: nat), tail_m = 13, size_m = 2\<rparr>)
     + spec_wrap_distance (unat (10 :: size_t)) (unat (7 :: size_t))
         (unat (tail \<lparr>data_m = replicate 10 (0 :: nat), tail_m = 13, size_m = 2\<rparr>)) < 2 ^ 64 \<and>
   update_head 10 (update_head 10 \<lparr>data_m = replicate 10 (0 :: nat), tail_m = 13, size_m = 2\<rparr> 7) 7
     = \<lparr>data_m = replicate 10 (0 :: nat), tail_m = 17, size_m = 6\<rparr>"
proof -
  have h1: "(0 :: size_t) < 10" by simp
  have h2: "unat (tail \<lparr>data_m = replicate 10 (0 :: nat), tail_m = 13, size_m = 2\<rparr>)
     + spec_wrap_distance (unat (10 :: size_t)) (unat (7 :: size_t))
         (unat (tail \<lparr>data_m = replicate 10 (0 :: nat), tail_m = 13, size_m = 2\<rparr>)) < 2 ^ 64"
    by (simp add: tail_def spec_wrap_distance_def)
  have h2': "unat (tail \<lparr>data_m = replicate 10 (0 :: nat), tail_m = 13, size_m = 2\<rparr>)
     + spec_wrap_distance (unat (10 :: size_t)) (unat (7 :: size_t))
         (unat (tail \<lparr>data_m = replicate 10 (0 :: nat), tail_m = 13, size_m = 2\<rparr>)) < 2 ^ 64
     \<or> unat (10 :: size_t) dvd 2 ^ 64"
    using h2 by (rule disjI1)
  have "update_head 10 \<lparr>data_m = replicate 10 (0 :: nat), tail_m = 13, size_m = 2\<rparr> 7
      = \<lparr>data_m = replicate 10 (0 :: nat), tail_m = 17, size_m = 6\<rparr>"
    by (simp add: update_head_def Let_def)
  with h1 h2 update_head_idempotent_without_wrap [OF h1 h2'] show ?thesis
    by simp
qed

text \<open>
  Claim C10, as stated, fails where the addition to \<open>tail\<close> wraps around \<open>2 ^ 64\<close> and
  the capacity does not divide \<open>2 ^ 64\<close>. With capacity 10 and \<open>tail = 2 ^ 64 - 1\<close>
  (physical slot 5), \<open>update_head(7)\<close> advances by 2 to \<open>tail = 1\<close>, physical slot 1
  and not 7, so a second \<open>update_head(7)\<close> advances by 6 more.
\<close>

theorem update_head_idempotent_counterexample:
  "update_head 10 (update_head 10
       \<lparr>data_m = replicate 10 (0 :: nat), tail_m = 18446744073709551615, size_m = 0\<rparr> 7) 7
   \<noteq> update_head 10
       \<lparr>data_m = replicate 10 (0 :: nat), tail_m = 18446744073709551615, size_m = 0\<rparr> 7"
  by (simp add: update_head_def Let_def)

section \<open>Pushing into the freshly constructed buffer\<close>

lemma shift_in_foldl: "shift_in Size b in_data = foldl (push Size) b in_data"
  by (induction in_data arbitrary: b) simp_all

lemma mod_neq_within_window:
  fixes i n C :: nat
  assumes "i < n" and "n - i < C"
  shows "i mod C \<noteq> n mod C"
proof
  assume "i mod C = n mod C"
  then have "C dvd n - i"
    by (metis mod_eq_dvd_iff_nat assms(1) less_imp_le_nat)
  moreover have "0 < n - i" using assms(1) by simp
  ultimately have "C \<le> n - i" by (rule dvd_imp_le)
  with assms(2) show False by simp
qed





lemma slot_nat:
  assumes pos: "0 < (Size :: size_t)"
    and i: "i < m" and m: "m \<le> unat Size"
    and nowrap: "unat t + m \<le> 2 ^ 64 \<or> unat Size dvd 2 ^ 64"
  shows "unat ((t + of_nat i) mod Size) = (unat t + i) mod unat Size"
proof -
  have "unat Size < 2 ^ 64" by (rule unat_size_t_less)
  with i m have iw: "unat (of_nat i :: size_t) = i" by (simp add: unat_of_nat_size_t)
  from nowrap have "unat (t + of_nat i) mod unat Size = (unat t + i) mod unat Size"
  proof
    assume "unat t + m \<le> 2 ^ 64"
    with i have "unat t + unat (of_nat i :: size_t) < 2 ^ 64" by (simp add: iw)
    then have "unat (t + of_nat i) = unat t + i" by (simp add: unat_add_no_wrap iw)
    then show ?thesis by simp
  next
    assume d: "unat Size dvd 2 ^ 64"
    have "unat (t + of_nat i) = (unat t + i) mod 2 ^ 64"
      using iw by (simp add: unat_word_ariths)
    with d show ?thesis by (simp add: mod_mod_cancel)
  qed
  then show ?thesis by (simp add: unat_mod)
qed

lemma slots_distinct:
  assumes pos: "0 < (Size :: size_t)"
    and ik: "i < k" and k: "k < m" and m: "m \<le> unat Size"
    and nowrap: "unat t + m \<le> 2 ^ 64 \<or> unat Size dvd 2 ^ 64"
  shows "unat ((t + of_nat i) mod Size) \<noteq> unat ((t + of_nat k) mod Size)"
proof -
  from ik k have i: "i < m" by simp
  have "unat t + i < unat t + k" and "unat t + k - (unat t + i) < unat Size"
    using ik k m by simp_all
  then have "(unat t + i) mod unat Size \<noteq> (unat t + k) mod unat Size"
    by (rule mod_neq_within_window)
  then show ?thesis
    by (simp only: slot_nat [OF pos i m nowrap] slot_nat [OF pos k m nowrap] not_False_eq_True)
qed

lemma pushes_from_empty:
  assumes pos: "0 < Size" and emp: "size_m b = 0" and len: "length (data_m b) = unat Size"
  shows "length xs \<le> unat Size \<Longrightarrow>
    unat (tail_m b) + length xs \<le> 2 ^ 64 \<or> unat Size dvd 2 ^ 64 \<Longrightarrow>
    tail_m (foldl (push Size) b xs) = tail_m b + of_nat (length xs) \<and>
    size_m (foldl (push Size) b xs) = of_nat (length xs) \<and>
    length (data_m (foldl (push Size) b xs)) = unat Size \<and>
    (\<forall>i < length xs.
        data_m (foldl (push Size) b xs) ! unat ((tail_m b + of_nat i) mod Size) = xs ! i)"
proof (induction xs rule: rev_induct)
  case Nil
  show ?case by (simp add: emp len)
next
  case (snoc x xs)
  let ?b = "foldl (push Size) b xs"
  let ?n = "length xs"
  let ?C = "unat Size"
  from snoc.prems(1) have n: "Suc ?n \<le> ?C" by simp
  have nw: "unat (tail_m b) + Suc ?n \<le> 2 ^ 64 \<or> ?C dvd 2 ^ 64"
    using snoc.prems(2) by simp
  then have "unat (tail_m b) + ?n \<le> 2 ^ 64 \<or> ?C dvd 2 ^ 64" by auto
  with snoc.IH n
  have tl: "tail_m ?b = tail_m b + of_nat ?n"
    and sz: "size_m ?b = of_nat ?n"
    and ln: "length (data_m ?b) = ?C"
    and dt: "\<forall>i < ?n. data_m ?b ! unat ((tail_m b + of_nat i) mod Size) = xs ! i"
    by simp_all
  have CL: "?C < 2 ^ 64" by (rule unat_size_t_less)
  have "Size \<noteq> 0" using pos by simp
  then have slot_lt: "unat ((tail_m b + of_nat ?n) mod Size) < ?C"
    using pos by (simp add: unat_mod unat_gt_0)
  have "unat (of_nat (Suc ?n) :: size_t) = Suc ?n"
    using n CL by (simp only: unat_of_nat_size_t)
  then have "(of_nat (Suc ?n) :: size_t) \<le> Size"
    using n by (simp only: word_le_nat_alt)
  then have sz': "size_m (push Size ?b x) = of_nat (Suc ?n)"
    by (simp add: push_fields sz min_def add.commute)
  have dt': "data_m (push Size ?b x) ! unat ((tail_m b + of_nat i) mod Size) = (xs @ [x]) ! i"
    if i: "i < Suc ?n" for i
  proof (cases "i = ?n")
    case True
    then show ?thesis using slot_lt ln by (simp add: push_fields tl)
  next
    case False
    with i have lt: "i < ?n" by simp
    have "?n < Suc ?n" by simp
    with pos lt have "unat ((tail_m b + of_nat i) mod Size) \<noteq> unat ((tail_m b + of_nat ?n) mod Size)"
      using n nw by (rule slots_distinct)
    with dt lt show ?thesis by (simp add: push_fields tl nth_append)
  qed
  show ?case
    using sz' dt' by (simp add: push_fields tl ln)
qed

lemma to_list_pushes_from_empty:
  assumes pos: "0 < Size" and emp: "size_m b = 0" and len: "length (data_m b) = unat Size"
    and n: "length xs \<le> unat Size"
    and nw: "unat (tail_m b) + length xs \<le> 2 ^ 64 \<or> unat Size dvd 2 ^ 64"
  shows "to_list Size (foldl (push Size) b xs) = xs"
proof (rule nth_equalityI)
  let ?b = "foldl (push Size) b xs"
  from pushes_from_empty [OF pos emp len n nw]
  have tl: "tail_m ?b = tail_m b + of_nat (length xs)"
    and sz: "size_m ?b = of_nat (length xs)"
    and dt: "\<forall>i < length xs. data_m ?b ! unat ((tail_m b + of_nat i) mod Size) = xs ! i"
    by simp_all
  have "unat Size < 2 ^ 64" by (rule unat_size_t_less)
  with n have usz: "unat (size_m ?b) = length xs"
    by (simp add: sz unat_of_nat_size_t)
  then show "length (to_list Size ?b) = length xs" by (simp add: length_to_list)
  fix i
  assume "i < length (to_list Size ?b)"
  then have i: "i < length xs" by (simp add: length_to_list usz)
  have "head ?b = tail_m b" by (simp add: head_def tl sz)
  with i dt show "to_list Size ?b ! i = xs ! i"
    by (simp add: to_list_map usz subscript_def data_def)
qed

text \<open>
  Claim C7, as amended. Take a buffer that is empty, whatever its \<open>tail\<close>, and
  \<open>n \<le> Capacity\<close> values such that \<open>tail + n\<close> does not exceed \<open>2 ^ 64\<close>, or take
  a capacity that divides \<open>2 ^ 64\<close>. Pushing the values and iterating from \<open>begin()\<close>
  to \<open>end()\<close> yields exactly those values in the order pushed; the size is then
  \<open>n\<close>, and after \<open>n\<close> calls of \<open>pop()\<close> it is 0. The freshly constructed and the
  cleared buffer, with \<open>tail = 0\<close>, are instances.
\<close>

theorem push_then_iterate_round_trip_without_wrap:
  assumes "0 < Size" and "empty_cb b" and "length (data_m b) = unat Size"
    and "length xs \<le> unat Size"
    and "unat (tail b) + length xs \<le> 2 ^ 64 \<or> unat Size dvd 2 ^ 64"
  shows "to_list Size (foldl (push Size) b xs) = xs \<and>
    unat (size_cb (foldl (push Size) b xs)) = length xs \<and>
    size_cb ((pop ^^ length xs) (foldl (push Size) b xs)) = 0"
proof -
  have emp: "size_m b = 0" using assms(2) by (simp add: empty_cb_def)
  have nw: "unat (tail_m b) + length xs \<le> 2 ^ 64 \<or> unat Size dvd 2 ^ 64"
    using assms(5) by (simp add: tail_def)
  have "unat Size < 2 ^ 64" by (rule unat_size_t_less)
  with assms(4) have n: "length xs < 2 ^ 64" by simp
  have "size_m (foldl (push Size) b xs) = of_nat (length xs)"
    using pushes_from_empty [OF assms(1) emp assms(3,4) nw] by simp
  with n have sz: "unat (size_m (foldl (push Size) b xs)) = length xs"
    by (simp add: unat_of_nat_size_t)
  have "unat (size_m ((pop ^^ length xs) (foldl (push Size) b xs))) = 0"
    by (simp add: size_funpow_pop sz)
  then have "size_m ((pop ^^ length xs) (foldl (push Size) b xs)) = 0"
    by (simp add: unat_eq_0)
  with sz show ?thesis
    by (simp add: to_list_pushes_from_empty [OF assms(1) emp assms(3,4) nw] size_cb_def)
qed

theorem push_then_iterate_round_trip_without_wrap_witness:
  "(0 :: size_t) < 8 \<and>
   empty_cb \<lparr>data_m = ''abcdefgh'', tail_m = 5, size_m = 0\<rparr> \<and>
   length (data_m \<lparr>data_m = ''abcdefgh'', tail_m = 5, size_m = 0\<rparr>) = unat (8 :: size_t) \<and>
   length ''12345'' \<le> unat (8 :: size_t) \<and>
   unat (tail \<lparr>data_m = ''abcdefgh'', tail_m = 5, size_m = 0\<rparr>) + length ''12345'' \<le> 2 ^ 64 \<and>
   foldl (push 8) \<lparr>data_m = ''abcdefgh'', tail_m = 5, size_m = 0\<rparr> ''12345'' =
     \<lparr>data_m = ''45cde123'', tail_m = 10, size_m = 5\<rparr> \<and>
   to_list 8 \<lparr>data_m = ''45cde123'', tail_m = 10, size_m = 5\<rparr> = ''12345'' \<and>
   size_cb (pop (pop (pop (pop (pop \<lparr>data_m = ''45cde123'', tail_m = 10, size_m = 5\<rparr>))))) = 0"
proof -
  have h1: "(0 :: size_t) < 8" by simp
  have h2: "empty_cb \<lparr>data_m = ''abcdefgh'', tail_m = 5, size_m = 0\<rparr>"
    by (simp add: empty_cb_def)
  have h3: "length (data_m \<lparr>data_m = ''abcdefgh'', tail_m = 5, size_m = 0\<rparr>) = unat (8 :: size_t)"
    by simp
  have h4: "length ''12345'' \<le> unat (8 :: size_t)" by simp
  have h5: "unat (tail \<lparr>data_m = ''abcdefgh'', tail_m = 5, size_m = 0\<rparr>) + length ''12345''
      \<le> 2 ^ 64"
    by (simp add: tail_def)
  have p: "foldl (push 8) \<lparr>data_m = ''abcdefgh'', tail_m = 5, size_m = 0\<rparr> ''12345'' =
     \<lparr>data_m = ''45cde123'', tail_m = 10, size_m = 5\<rparr>"
    by (simp add: push_def data_write_def Let_def)
  from push_then_iterate_round_trip_without_wrap [OF h1 h2 h3 h4 disjI1 [OF h5]]
  show ?thesis
    unfolding p using h1 h2 h4 h5 by simp
qed

text \<open>
  Claim C7, as stated, fails on an empty buffer whose \<open>tail\<close> wraps around \<open>2 ^ 64\<close>
  during the pushes when the capacity does not divide \<open>2 ^ 64\<close>. With capacity 10,
  \<open>size = 0\<close> and \<open>tail = 2 ^ 64 - 1\<close> (physical slot 5), the seven values 1, .., 7
  go to the slots 5, 0, 1, 2, 3, 4, 5: the seventh overwrites the first, and the
  iteration yields 7, 2, 3, 4, 5, 6, 7.
\<close>

theorem push_then_iterate_round_trip_counterexample:
  "empty_cb \<lparr>data_m = [0, 0, 0, 0, 0, 0, 0, 0, 0, 0 :: nat],
      tail_m = 18446744073709551615, size_m = 0\<rparr> \<and>
   length [1, 2, 3, 4, 5, 6, 7 :: nat] \<le> unat (10 :: size_t) \<and>
   to_list 10 (foldl (push 10)
      \<lparr>data_m = [0, 0, 0, 0, 0, 0, 0, 0, 0, 0 :: nat], tail_m = 18446744073709551615, size_m = 0\<rparr>
      [1, 2, 3, 4, 5, 6, 7]) = [7, 2, 3, 4, 5, 6, 7] \<and>
   to_list 10 (foldl (push 10)
      \<lparr>data_m = [0, 0, 0, 0, 0, 0, 0, 0, 0, 0 :: nat], tail_m = 18446744073709551615, size_m = 0\<rparr>
      [1, 2, 3, 4, 5, 6, 7]) \<noteq> [1, 2, 3, 4, 5, 6, 7]"
  by (simp add: empty_cb_def push_def data_write_def Let_def
        to_list_def iterate.simps begin_it_def end_it_def it_incr_def deref_def subscript_def
        data_def head_def)



section \<open>Comparison with a sequence\<close>

lemma eq_loop_False: "eq_loop Size b False iter in_data = False"
  by (induction in_data arbitrary: iter) simp_all

lemma operator_eq_False: "operator_eq False Size b in_data = False"
  by (simp add: operator_eq_def eq_loop_False)

text \<open>
  Claim C6 does not hold of \<open>operator==\<close>. The loop runs over the supplied sequence
  only and never looks at \<open>size()\<close>, and \<open>res\<close> starts from whatever value the
  uninitialised variable holds. On the buffer of capacity 4 holding 1, 2, 3: started
  from true, the comparison with the shorter sequence 1, 2 returns true; started from
  false, the comparison with the equal sequence 1, 2, 3 returns false.
\<close>

theorem operator_eq_wrong_both_ways:
  "to_list 4 (foldl (push 4) (construct [0, 0, 0, 0 :: nat]) [1, 2, 3]) = [1, 2, 3] \<and>
   operator_eq True 4 (foldl (push 4) (construct [0, 0, 0, 0 :: nat]) [1, 2, 3]) [1, 2] = True \<and>
   operator_eq False 4 (foldl (push 4) (construct [0, 0, 0, 0 :: nat]) [1, 2, 3]) [1, 2, 3] = False"
  by (simp add: operator_eq_def push_def data_write_def Let_def construct_def
        to_list_def iterate.simps begin_it_def end_it_def it_incr_def deref_def subscript_def
        data_def head_def)

end
